theory Spec2Isabelle
  imports Main
begin

section \<open>Strings\<close>

text \<open>
  The crawler only uses three string operations of the platform on URLs:
  \<^verbatim>\<open>s.startsWith(p)\<close>, \<^verbatim>\<open>s.includes(p)\<close> and one regular-expression match.
  A string is a list of characters; none of the operations can raise on a string.
\<close>

fun startsWith :: "string \<Rightarrow> string \<Rightarrow> bool" where
  "startsWith s [] = True"
| "startsWith [] (p # ps) = False"
| "startsWith (c # cs) (p # ps) = (c = p \<and> startsWith cs ps)"

fun str_includes :: "string \<Rightarrow> string \<Rightarrow> bool" where
  "str_includes [] p = (p = [])"
| "str_includes (c # cs) p = (startsWith (c # cs) p \<or> str_includes cs p)"

text \<open>Decimal rendering of a number inside a template literal.\<close>

fun show_nat :: "nat \<Rightarrow> string" where
  "show_nat n =
     (if n < 10 then [''0123456789'' ! n]
      else show_nat (n div 10) @ [''0123456789'' ! (n mod 10)])"

section \<open>Scope policy\<close>

text \<open>
  \<^verbatim>\<open>startUrl.match(/context:([^\/\?#]+)/)\<close>: the leftmost position at which the text
  \<^verbatim>\<open>context:\<close> is followed by at least one character other than \<^verbatim>\<open>/\<close>, \<^verbatim>\<open>?\<close>, \<^verbatim>\<open>#\<close>;
  the capture group is the longest run of such characters there.
\<close>

definition token_char :: "char \<Rightarrow> bool" where
  "token_char c = (c \<noteq> CHR ''/'' \<and> c \<noteq> CHR ''?'' \<and> c \<noteq> CHR ''#'')"

fun contextMatch :: "string \<Rightarrow> string option" where
  "contextMatch [] = None"
| "contextMatch (c # cs) =
     (if startsWith (c # cs) ''context:'' \<and> takeWhile token_char (drop 8 (c # cs)) \<noteq> []
      then Some (takeWhile token_char (drop 8 (c # cs)))
      else contextMatch cs)"

text \<open>
  \<^verbatim>\<open>projectId = contextMatch ? contextMatch[1] : null\<close>, then
  \<^verbatim>\<open>if (projectId) { push `context:${projectId}`; push `o:${projectId}` }\<close>.
  A string is truthy when it is not empty.
\<close>

definition allowedPatterns_of :: "string \<Rightarrow> string list" where
  "allowedPatterns_of startUrl =
     (case contextMatch startUrl of
        None \<Rightarrow> []
      | Some projectId \<Rightarrow>
          if projectId \<noteq> [] then [''context:'' @ projectId, ''o:'' @ projectId] else [])"

record policy =
  domain :: string
  allowedPatterns :: "string list"

datatype error = InvalidURL

text \<open>
  \<^verbatim>\<open>new URL(startUrl).origin\<close> is the platform's URL parser. It is a parameter
  \<open>origin_of\<close> of the model: \<open>None\<close> when the constructor throws.
\<close>

definition derive_policy :: "(string \<Rightarrow> string option) \<Rightarrow> string \<Rightarrow> error + policy" where
  "derive_policy origin_of startUrl =
     (case origin_of startUrl of
        None \<Rightarrow> Inl InvalidURL
      | Some d \<Rightarrow> Inr \<lparr>domain = d, allowedPatterns = allowedPatterns_of startUrl\<rparr>)"

text \<open>\<^verbatim>\<open>shouldCrawl(url)\<close>, lines 91 to 102.\<close>

definition shouldCrawl :: "policy \<Rightarrow> string \<Rightarrow> bool" where
  "shouldCrawl pol url =
     (if \<not> startsWith url (domain pol) then False
      else if allowedPatterns pol \<noteq> [] \<and> \<not> list_ex (\<lambda>pattern. str_includes url pattern) (allowedPatterns pol)
      then False
      else True)"

text \<open>
  A model of \<^verbatim>\<open>new URL(u).origin\<close> on a fragment of the platform's parser: http and https
  URLs, in any case, whose authority is a host name with an optional port and has no user
  information, no IP address, no percent-encoding and no character outside ASCII. On this
  fragment the result is the origin the parser computes (\<open>Some\<close>), or \<open>None\<close> where the
  parser refuses the URL (an empty host, a port that is not a number of at most 65535).
  Outside the fragment the result is \<open>None\<close> as well, and says nothing about the parser. It instantiates \<open>origin_of\<close> in closed statements, on URLs of
  the fragment only.
\<close>

definition ascii_lower :: "char \<Rightarrow> char" where
  "ascii_lower c =
     (case map_of (zip ''ABCDEFGHIJKLMNOPQRSTUVWXYZ'' ''abcdefghijklmnopqrstuvwxyz'') c of
        Some d \<Rightarrow> d
      | None \<Rightarrow> c)"

text \<open>
  Before parsing, leading and trailing control characters and spaces are stripped and every
  tab and newline is removed.
\<close>

definition c0_or_space :: "char \<Rightarrow> bool" where
  "c0_or_space c =
     (c \<in> set [CHR 0x00, CHR 0x01, CHR 0x02, CHR 0x03, CHR 0x04, CHR 0x05, CHR 0x06, CHR 0x07,
                CHR 0x08, CHR 0x09, CHR 0x0A, CHR 0x0B, CHR 0x0C, CHR 0x0D, CHR 0x0E, CHR 0x0F,
                CHR 0x10, CHR 0x11, CHR 0x12, CHR 0x13, CHR 0x14, CHR 0x15, CHR 0x16, CHR 0x17,
                CHR 0x18, CHR 0x19, CHR 0x1A, CHR 0x1B, CHR 0x1C, CHR 0x1D, CHR 0x1E, CHR 0x1F,
                CHR 0x20])"

definition tab_or_newline :: "char \<Rightarrow> bool" where
  "tab_or_newline c = (c = CHR 0x09 \<or> c = CHR 0x0A \<or> c = CHR 0x0D)"

definition url_trim :: "string \<Rightarrow> string" where
  "url_trim u =
     filter (\<lambda>c. \<not> tab_or_newline c) (rev (dropWhile c0_or_space (rev (dropWhile c0_or_space u))))"

text \<open>
  After the scheme, any run of slashes and backslashes is skipped; the authority ends at
  the next slash, backslash, \<^verbatim>\<open>?\<close> or \<^verbatim>\<open>#\<close>.
\<close>

definition slash :: "char \<Rightarrow> bool" where
  "slash c = (c = CHR ''/'' \<or> c = CHR 0x5C)"

definition authority_end :: "char \<Rightarrow> bool" where
  "authority_end c = (slash c \<or> c = CHR ''?'' \<or> c = CHR ''#'')"

text \<open>
  The hosts of the fragment: lower-case letters, digits, hyphens and dots after
  lower-casing, not starting with a dot, with a last label that starts with a letter (so
  the host is not read as an IPv4 address) and no punycode label.
\<close>

definition letter :: "char \<Rightarrow> bool" where
  "letter c = (c \<in> set ''abcdefghijklmnopqrstuvwxyz'')"

definition digit :: "char \<Rightarrow> bool" where
  "digit c = (c \<in> set ''0123456789'')"

definition host_char :: "char \<Rightarrow> bool" where
  "host_char c = (letter c \<or> digit c \<or> c = CHR ''-'' \<or> c = CHR ''.'')"

definition last_label :: "string \<Rightarrow> string" where
  "last_label host = rev (takeWhile (\<lambda>c. c \<noteq> CHR ''.'') (rev host))"

text \<open>
  The port: decimal digits, at most 65535; it is left out of the origin when it is empty
  or the default port of the scheme.
\<close>

definition digits_value :: "string \<Rightarrow> nat" where
  "digits_value ds =
     foldl (\<lambda>n c. 10 * n + length (takeWhile (\<lambda>d. d \<noteq> c) ''0123456789'')) 0 ds"

definition default_port :: "string \<Rightarrow> nat" where
  "default_port scheme = (if scheme = ''https'' then 443 else 80)"

definition authority_origin :: "string \<Rightarrow> string \<Rightarrow> string option" where
  "authority_origin scheme rest =
     (let authority = takeWhile (\<lambda>c. \<not> authority_end c) (dropWhile slash rest);
          host = map ascii_lower (takeWhile (\<lambda>c. c \<noteq> CHR '':'') authority);
          port = drop (Suc (length host)) authority
      in if host \<noteq> [] \<and> list_all host_char host \<and> hd host \<noteq> CHR ''.'' \<and>
            last_label host \<noteq> [] \<and> letter (hd (last_label host)) \<and>
            \<not> str_includes host ''xn--'' \<and>
            list_all digit port \<and> digits_value port \<le> 65535
         then Some (scheme @ ''://'' @ host @
                    (if port = [] \<or> digits_value port = default_port scheme then []
                     else '':'' @ show_nat (digits_value port)))
         else None)"

definition http_origin :: "string \<Rightarrow> string option" where
  "http_origin u =
     (let t = url_trim u
      in if map ascii_lower (take 6 t) = ''https:'' then authority_origin ''https'' (drop 6 t)
         else if map ascii_lower (take 5 t) = ''http:'' then authority_origin ''http'' (drop 5 t)
         else None)"


text \<open>
  The reading of the pattern that takes the text after the first occurrence of
  \<^verbatim>\<open>context:\<close>, whatever follows it: the longest run of characters other than
  \<^verbatim>\<open>/\<close>, \<^verbatim>\<open>?\<close>, \<^verbatim>\<open>#\<close> after that occurrence, possibly empty. It is compared with
  \<open>contextMatch\<close> below.
\<close>

fun token_after_first_context :: "string \<Rightarrow> string option" where
  "token_after_first_context [] = None"
| "token_after_first_context (c # cs) =
     (if startsWith (c # cs) ''context:'' then Some (takeWhile token_char (drop 8 (c # cs)))
      else token_after_first_context cs)"

section \<open>Crawl state\<close>

text \<open>An element of \<^verbatim>\<open>toVisit\<close>: \<^verbatim>\<open>{ url, foundOn }\<close>.\<close>

type_synonym entry = "string \<times> string"

record console_error =
  ce_url :: string
  ce_error :: string
  ce_timestamp :: string

record resource_error =
  re_resourceUrl :: string
  re_pageUrl :: string
  re_status :: nat
  re_timestamp :: string

datatype link_status = Code nat | ERROR

record broken_link =
  bl_url :: string
  bl_foundOn :: string
  bl_status :: link_status
  bl_error :: string

text \<open>
  What the loop does to the queue and to the browser, in the order it does it:
  \<^verbatim>\<open>toVisit.shift()\<close>, \<^verbatim>\<open>toVisit.push(e)\<close>, \<^verbatim>\<open>page.goto(url)\<close>,
  \<^verbatim>\<open>setTimeout(resolve, ms)\<close> and \<^verbatim>\<open>page.evaluate\<close>.
\<close>

datatype action = Shift entry | Push entry | Goto string | Settle nat | Evaluate

text \<open>
  The variables of \<^verbatim>\<open>crawlForErrors\<close>. \<^verbatim>\<open>visited\<close> is a Set, kept in insertion
  order as \<^verbatim>\<open>Array.from(visited)\<close> reads it; \<^verbatim>\<open>urlSources\<close> is a Map. \<open>trace\<close> is
  the log of the actions performed so far.
\<close>

record crawl_state =
  visited :: "string list"
  errorsFound :: "console_error list"
  toVisit :: "entry list"
  urlSources :: "string \<rightharpoonup> string"
  brokenLinks :: "broken_link list"
  resourceErrors :: "resource_error list"
  currentPageUrl :: string
  trace :: "action list"

definition initial :: "string \<Rightarrow> crawl_state" where
  "initial startUrl =
     \<lparr>visited = [], errorsFound = [], toVisit = [(startUrl, ''START'')],
      urlSources = Map.empty, brokenLinks = [], resourceErrors = [],
      currentPageUrl = [], trace = []\<rparr>"

section \<open>Event handlers\<close>

text \<open>
  The three event streams of the page. An occurrence carries what the handler reads from
  its surroundings when it runs: \<^verbatim>\<open>page.url()\<close> and \<^verbatim>\<open>new Date().toISOString()\<close>.
\<close>

datatype event =
  ConsoleMsg string string
| PageError string
| HttpResponse nat string

record occurrence =
  ev :: event
  page_url :: string
  now :: string

text \<open>\<^verbatim>\<open>a || b\<close> on strings: the empty string is falsy.\<close>

definition js_or :: "string \<Rightarrow> string \<Rightarrow> string" where
  "js_or a b = (if a \<noteq> [] then a else b)"

definition onConsole :: "string \<Rightarrow> string \<Rightarrow> string \<Rightarrow> string \<Rightarrow> crawl_state \<Rightarrow> crawl_state" where
  "onConsole msg_type msg_text pageUrl t s =
     (if msg_type = ''error''
      then s\<lparr>errorsFound := errorsFound s @
             [\<lparr>ce_url = js_or (currentPageUrl s) pageUrl, ce_error = msg_text, ce_timestamp = t\<rparr>]\<rparr>
      else s)"

definition onPageError :: "string \<Rightarrow> string \<Rightarrow> string \<Rightarrow> crawl_state \<Rightarrow> crawl_state" where
  "onPageError message pageUrl t s =
     s\<lparr>errorsFound := errorsFound s @
        [\<lparr>ce_url = js_or (currentPageUrl s) pageUrl, ce_error = ''PAGE ERROR: '' @ message,
          ce_timestamp = t\<rparr>]\<rparr>"

definition onResponse :: "policy \<Rightarrow> nat \<Rightarrow> string \<Rightarrow> string \<Rightarrow> crawl_state \<Rightarrow> crawl_state" where
  "onResponse pol status resourceUrl t s =
     (if status = 404 \<and> startsWith resourceUrl (domain pol) then
        (let matchesPattern =
               (allowedPatterns pol = [] \<or>
                list_ex (\<lambda>pattern. str_includes resourceUrl pattern) (allowedPatterns pol))
         in if matchesPattern
            then s\<lparr>resourceErrors := resourceErrors s @
                   [\<lparr>re_resourceUrl = resourceUrl, re_pageUrl = currentPageUrl s,
                     re_status = 404, re_timestamp = t\<rparr>]\<rparr>
            else s)
      else s)"

definition handle :: "policy \<Rightarrow> occurrence \<Rightarrow> crawl_state \<Rightarrow> crawl_state" where
  "handle pol oc s =
     (case ev oc of
        ConsoleMsg msg_type msg_text \<Rightarrow> onConsole msg_type msg_text (page_url oc) (now oc) s
      | PageError message \<Rightarrow> onPageError message (page_url oc) (now oc) s
      | HttpResponse status resourceUrl \<Rightarrow> onResponse pol status resourceUrl (now oc) s)"

definition dispatch :: "policy \<Rightarrow> occurrence list \<Rightarrow> crawl_state \<Rightarrow> crawl_state" where
  "dispatch pol ocs s = fold (handle pol) ocs s"

section \<open>The browser\<close>

text \<open>
  What the browser answers when one URL is visited: how \<^verbatim>\<open>await page.goto\<close> ends (it
  throws, it resolves to \<^verbatim>\<open>null\<close>, or it resolves to a response with a status), how
  \<^verbatim>\<open>await page.evaluate\<close> ends (it throws, or it yields the \<^verbatim>\<open>href\<close> of every anchor,
  in document order), and the events delivered while the loop is suspended in each of its
  three awaits.
\<close>

datatype goto_result = GotoThrows string | GotoNull | GotoResponse nat

datatype evaluate_result = EvaluateThrows string | Hrefs "string list"

record page =
  during_goto :: "occurrence list"
  goto_outcome :: goto_result
  during_settle :: "occurrence list"
  during_evaluate :: "occurrence list"
  evaluate_outcome :: evaluate_result

type_synonym browser = "string \<Rightarrow> page"

text \<open>The message of the TypeError of \<^verbatim>\<open>response.status()\<close> on a \<^verbatim>\<open>null\<close> response.\<close>

definition null_status_message :: string where
  "null_status_message = ''Cannot read properties of null (reading 'status')''"

section \<open>One visit\<close>

text \<open>
  The filter run inside the page:
  \<^verbatim>\<open>href && !href.includes('#') && !href.includes('javascript:')\<close>.
\<close>

definition href_wanted :: "string \<Rightarrow> bool" where
  "href_wanted href = (href \<noteq> [] \<and> \<not> str_includes href ''#'' \<and> \<not> str_includes href ''javascript:'')"

text \<open>The \<^verbatim>\<open>for (const link of links)\<close> loop, lines 156 to 160.\<close>

fun push_links :: "policy \<Rightarrow> string \<Rightarrow> string list \<Rightarrow> crawl_state \<Rightarrow> crawl_state" where
  "push_links pol url [] s = s"
| "push_links pol url (link # links) s =
     push_links pol url links
       (if link \<notin> set (visited s) \<and> shouldCrawl pol link
        then s\<lparr>toVisit := toVisit s @ [(link, url)], trace := trace s @ [Push (link, url)]\<rparr>
        else s)"

text \<open>The \<^verbatim>\<open>catch (error)\<close> block, lines 163 to 171.\<close>

definition catch_error :: "string \<Rightarrow> string \<Rightarrow> string \<Rightarrow> crawl_state \<Rightarrow> crawl_state" where
  "catch_error url foundOn message s =
     s\<lparr>brokenLinks := brokenLinks s @
        [\<lparr>bl_url = url, bl_foundOn = foundOn, bl_status = ERROR, bl_error = message\<rparr>]\<rparr>"

text \<open>The status check, lines 125 to 142.\<close>

definition check_status :: "string \<Rightarrow> string \<Rightarrow> nat \<Rightarrow> crawl_state \<Rightarrow> crawl_state" where
  "check_status url foundOn status s =
     (if status = 404 then
        s\<lparr>brokenLinks := brokenLinks s @
           [\<lparr>bl_url = url, bl_foundOn = foundOn, bl_status = Code 404,
             bl_error = ''Page not found''\<rparr>]\<rparr>
      else if status \<ge> 400 then
        s\<lparr>brokenLinks := brokenLinks s @
           [\<lparr>bl_url = url, bl_foundOn = foundOn, bl_status = Code status,
             bl_error = ''HTTP error '' @ show_nat status\<rparr>]\<rparr>
      else s)"

text \<open>The \<^verbatim>\<open>try\<close> block with its \<^verbatim>\<open>catch\<close>, lines 118 to 171.\<close>

definition visit :: "policy \<Rightarrow> page \<Rightarrow> string \<Rightarrow> string \<Rightarrow> crawl_state \<Rightarrow> crawl_state" where
  "visit pol pg url foundOn s =
     (let s1 = dispatch pol (during_goto pg) (s\<lparr>trace := trace s @ [Goto url]\<rparr>)
      in case goto_outcome pg of
           GotoThrows message \<Rightarrow> catch_error url foundOn message s1
         | GotoNull \<Rightarrow> catch_error url foundOn null_status_message s1
         | GotoResponse status \<Rightarrow>
             (let s2 = check_status url foundOn status s1;
                  s3 = dispatch pol (during_settle pg) (s2\<lparr>trace := trace s2 @ [Settle 1000]\<rparr>)
              in if status < 400 then
                   (let s4 = dispatch pol (during_evaluate pg) (s3\<lparr>trace := trace s3 @ [Evaluate]\<rparr>)
                    in case evaluate_outcome pg of
                         EvaluateThrows message \<Rightarrow> catch_error url foundOn message s4
                       | Hrefs hrefs \<Rightarrow> push_links pol url (filter href_wanted hrefs) s4)
                 else s3))"

section \<open>The crawl loop\<close>

text \<open>
  One iteration of \<^verbatim>\<open>while (toVisit.length > 0)\<close>, lines 105 to 172. With an empty
  queue the loop has ended and the state stays as it is.
\<close>

definition step :: "policy \<Rightarrow> browser \<Rightarrow> crawl_state \<Rightarrow> crawl_state" where
  "step pol web s =
     (case toVisit s of
        [] \<Rightarrow> s
      | (url, foundOn) # rest \<Rightarrow>
          (let s1 = s\<lparr>toVisit := rest, trace := trace s @ [Shift (url, foundOn)]\<rparr>
           in if url \<in> set (visited s1) \<or> \<not> shouldCrawl pol url then s1
              else visit pol (web url) url foundOn
                     (s1\<lparr>visited := visited s1 @ [url],
                         urlSources := (urlSources s1)(url \<mapsto> foundOn),
                         currentPageUrl := url\<rparr>)))"

text \<open>The state after \<open>n\<close> iterations of the loop.\<close>

definition crawl_at :: "policy \<Rightarrow> browser \<Rightarrow> string \<Rightarrow> nat \<Rightarrow> crawl_state" where
  "crawl_at pol web startUrl n = (step pol web ^^ n) (initial startUrl)"

text \<open>
  The loop itself. A site can link to new pages for ever, so the loop takes fuel:
  \<open>None\<close> when the queue is not yet empty after \<open>fuel\<close> iterations.
\<close>

fun crawl_loop :: "policy \<Rightarrow> browser \<Rightarrow> nat \<Rightarrow> crawl_state \<Rightarrow> crawl_state option" where
  "crawl_loop pol web 0 s = (if toVisit s = [] then Some s else None)"
| "crawl_loop pol web (Suc fuel) s =
     (if toVisit s = [] then Some s else crawl_loop pol web fuel (step pol web s))"

text \<open>
  \<^verbatim>\<open>crawlForErrors(startUrl)\<close>: the final state holds the five fields of the returned
  object. \<open>Inl\<close> when \<^verbatim>\<open>new URL(startUrl)\<close> throws.
\<close>

definition crawlForErrors ::
  "(string \<Rightarrow> string option) \<Rightarrow> browser \<Rightarrow> nat \<Rightarrow> string \<Rightarrow> (error + crawl_state) option" where
  "crawlForErrors origin_of web fuel startUrl =
     (case derive_policy origin_of startUrl of
        Inl e \<Rightarrow> Some (Inl e)
      | Inr pol \<Rightarrow> map_option Inr (crawl_loop pol web fuel (initial startUrl)))"

section \<open>Reading the trace\<close>

fun pushes :: "action list \<Rightarrow> entry list" where
  "pushes [] = []"
| "pushes (Push e # tr) = e # pushes tr"
| "pushes (a # tr) = pushes tr"

fun shifts :: "action list \<Rightarrow> entry list" where
  "shifts [] = []"
| "shifts (Shift e # tr) = e # shifts tr"
| "shifts (a # tr) = shifts tr"

fun gotos :: "action list \<Rightarrow> string list" where
  "gotos [] = []"
| "gotos (Goto u # tr) = u # gotos tr"
| "gotos (a # tr) = gotos tr"

fun settles :: "action list \<Rightarrow> nat list" where
  "settles [] = []"
| "settles (Settle ms # tr) = ms # settles tr"
| "settles (a # tr) = settles tr"

text \<open>Every entry that was ever in the queue, in the order it entered: the seed, then the pushes.\<close>

definition enqueued :: "string \<Rightarrow> crawl_state \<Rightarrow> entry list" where
  "enqueued startUrl s = (startUrl, ''START'') # pushes (trace s)"

text \<open>A list without its repetitions: of each element the first occurrence is kept.\<close>

definition first_occurrences :: "'a list \<Rightarrow> 'a list" where
  "first_occurrences xs = rev (remdups (rev xs))"

text \<open>\<open>b\<close> occurs in \<open>xs\<close> before the first occurrence of \<open>a\<close>.\<close>

definition comes_before :: "'a \<Rightarrow> 'a \<Rightarrow> 'a list \<Rightarrow> bool" where
  "comes_before b a xs = (b \<in> set (takeWhile (\<lambda>x. x \<noteq> a) xs))"

section \<open>Notions used to state the properties\<close>

text \<open>
  The links that a visit of a page appends to the queue, given the visited set at that
  moment: none unless navigation answered with a status below 400 and the link query
  returned.
\<close>

definition new_links :: "policy \<Rightarrow> page \<Rightarrow> string list \<Rightarrow> string list" where
  "new_links pol pg vis =
     (case goto_outcome pg of
        GotoResponse status \<Rightarrow>
          if status < 400 then
            (case evaluate_outcome pg of
               Hrefs hrefs \<Rightarrow> filter (\<lambda>l. l \<notin> set vis \<and> shouldCrawl pol l) (filter href_wanted hrefs)
             | EvaluateThrows message \<Rightarrow> [])
          else []
      | _ \<Rightarrow> [])"

text \<open>What holds of the state after any number of iterations of the loop.\<close>

definition crawl_inv :: "policy \<Rightarrow> string \<Rightarrow> crawl_state \<Rightarrow> bool" where
  "crawl_inv pol startUrl s \<longleftrightarrow>
     enqueued startUrl s = shifts (trace s) @ toVisit s \<and>
     gotos (trace s) = visited s \<and>
     distinct (visited s) \<and>
     dom (urlSources s) = set (visited s) \<and>
     (\<forall>u \<in> set (visited s). shouldCrawl pol u \<and> urlSources s u = map_of (enqueued startUrl s) u) \<and>
     (\<forall>e \<in> set (shifts (trace s)). shouldCrawl pol (fst e) \<longrightarrow> fst e \<in> set (visited s)) \<and>
     (\<forall>e \<in> set (pushes (trace s)).
        shouldCrawl pol (fst e) \<and> snd e \<in> set (visited s) \<and>
        (fst e \<in> set (visited s) \<longrightarrow> comes_before (snd e) (fst e) (visited s))) \<and>
     distinct (map bl_url (brokenLinks s)) \<and>
     set (map bl_url (brokenLinks s)) \<subseteq> set (visited s)"

text \<open>
  The text \<^verbatim>\<open>context:\<close> stands at offset \<open>i\<close> of \<open>s\<close> and at least one character
  other than \<^verbatim>\<open>/\<close>, \<^verbatim>\<open>?\<close>, \<^verbatim>\<open>#\<close> follows it.
\<close>

definition context_at :: "string \<Rightarrow> nat \<Rightarrow> bool" where
  "context_at s i \<longleftrightarrow>
     startsWith (drop i s) ''context:'' \<and> takeWhile token_char (drop (i + 8) s) \<noteq> []"

text \<open>
  The patterns under the reading that takes the token after the first occurrence of
  \<^verbatim>\<open>context:\<close>, whatever follows that occurrence.
\<close>

definition claimed_patterns :: "string \<Rightarrow> string list" where
  "claimed_patterns startUrl =
     (case token_after_first_context startUrl of
        None \<Rightarrow> []
      | Some tok \<Rightarrow> [''context:'' @ tok, ''o:'' @ tok])"




section \<open>A small site\<close>

text \<open>
  The seed page links to two pages of the project (to the first one twice), to a page of
  another site and to an in-page anchor. The first project page answers 404; navigation to
  any other page times out.
\<close>

abbreviation example_seed :: string where
  "example_seed \<equiv> ''https://x.test/context:proj''"

abbreviation example_page_a :: string where
  "example_page_a \<equiv> ''https://x.test/o:proj/a''"

abbreviation example_page_b :: string where
  "example_page_b \<equiv> ''https://x.test/o:proj/b''"

abbreviation example_foreign_page :: string where
  "example_foreign_page \<equiv> ''https://other.test/page''"

definition example_policy :: policy where
  "example_policy = \<lparr>domain = ''https://x.test'', allowedPatterns = [''context:proj'', ''o:proj'']\<rparr>"

definition example_web :: browser where
  "example_web u =
     (if u = example_seed then
        \<lparr>during_goto = [], goto_outcome = GotoResponse 200, during_settle = [],
          during_evaluate = [],
          evaluate_outcome =
            Hrefs [example_page_a, example_foreign_page,
                   example_page_a, example_page_b,
                   ''https://x.test/o:proj/a#top'']\<rparr>
      else if u = example_page_a then
        \<lparr>during_goto = [], goto_outcome = GotoResponse 404, during_settle = [],
          during_evaluate = [], evaluate_outcome = Hrefs []\<rparr>
      else
        \<lparr>during_goto = [], goto_outcome = GotoThrows ''Navigation timeout of 30000 ms exceeded'',
          during_settle = [], during_evaluate = [], evaluate_outcome = Hrefs []\<rparr>)"

abbreviation example_evil_page :: string where
  "example_evil_page \<equiv> ''https://x.test.evil.com/context:proj''"

text \<open>
  A site whose seed page links to a page of another origin, the text of which starts with
  the origin of the seed; every page answers 200.
\<close>

definition example_foreign_web :: browser where
  "example_foreign_web u =
     (if u = example_seed then
        \<lparr>during_goto = [], goto_outcome = GotoResponse 200, during_settle = [],
          during_evaluate = [], evaluate_outcome = Hrefs [example_evil_page]\<rparr>
      else
        \<lparr>during_goto = [], goto_outcome = GotoResponse 200, during_settle = [],
          during_evaluate = [], evaluate_outcome = Hrefs []\<rparr>)"


section \<open>String lemmas\<close>

lemma startsWith_iff: "startsWith s p \<longleftrightarrow> (\<exists>r. s = p @ r)"
  by (induction s p rule: startsWith.induct) auto

lemma str_includes_iff: "str_includes s p \<longleftrightarrow> (\<exists>a b. s = a @ p @ b)"
proof (induction s)
  case Nil
  then show ?case by auto
next
  case (Cons c cs)
  have "(\<exists>a b. c # cs = a @ p @ b) \<longleftrightarrow> (\<exists>r. c # cs = p @ r) \<or> (\<exists>a b. cs = a @ p @ b)"
  proof
    assume "\<exists>a b. c # cs = a @ p @ b"
    then obtain a b where ab: "c # cs = a @ p @ b" by blast
    show "(\<exists>r. c # cs = p @ r) \<or> (\<exists>a b. cs = a @ p @ b)"
    proof (cases a)
      case Nil
      with ab show ?thesis by auto
    next
      case (Cons x a')
      with ab have "cs = a' @ p @ b" by simp
      then show ?thesis by blast
    qed
  next
    assume "(\<exists>r. c # cs = p @ r) \<or> (\<exists>a b. cs = a @ p @ b)"
    then show "\<exists>a b. c # cs = a @ p @ b"
    proof
      assume "\<exists>r. c # cs = p @ r"
      then obtain r where "c # cs = [] @ p @ r" by auto
      then show ?thesis by blast
    next
      assume "\<exists>a b. cs = a @ p @ b"
      then obtain a b where "c # cs = (c # a) @ p @ b" by auto
      then show ?thesis by blast
    qed
  qed
  with Cons show ?case by (simp add: startsWith_iff)
qed


section \<open>What the handlers and a visit leave unchanged\<close>


lemma handle_visited [simp]: "visited (handle pol oc s) = visited s"
  and handle_toVisit [simp]: "toVisit (handle pol oc s) = toVisit s"
  and handle_urlSources [simp]: "urlSources (handle pol oc s) = urlSources s"
  and handle_brokenLinks [simp]: "brokenLinks (handle pol oc s) = brokenLinks s"
  and handle_currentPageUrl [simp]: "currentPageUrl (handle pol oc s) = currentPageUrl s"
  and handle_trace [simp]: "trace (handle pol oc s) = trace s"
  by (simp_all add: handle_def onConsole_def onPageError_def onResponse_def Let_def split: event.splits)

lemma dispatch_Nil [simp]: "dispatch pol [] s = s"
  by (simp add: dispatch_def)

lemma dispatch_Cons [simp]: "dispatch pol (oc # ocs) s = dispatch pol ocs (handle pol oc s)"
  by (simp add: dispatch_def)

lemma dispatch_visited [simp]: "visited (dispatch pol ocs s) = visited s"
  by (induction ocs arbitrary: s) simp_all

lemma dispatch_toVisit [simp]: "toVisit (dispatch pol ocs s) = toVisit s"
  by (induction ocs arbitrary: s) simp_all

lemma dispatch_urlSources [simp]: "urlSources (dispatch pol ocs s) = urlSources s"
  by (induction ocs arbitrary: s) simp_all

lemma dispatch_brokenLinks [simp]: "brokenLinks (dispatch pol ocs s) = brokenLinks s"
  by (induction ocs arbitrary: s) simp_all

lemma dispatch_currentPageUrl [simp]: "currentPageUrl (dispatch pol ocs s) = currentPageUrl s"
  by (induction ocs arbitrary: s) simp_all

lemma dispatch_trace [simp]: "trace (dispatch pol ocs s) = trace s"
  by (induction ocs arbitrary: s) simp_all

lemma push_links_visited [simp]: "visited (push_links pol url links s) = visited s"
  by (induction links arbitrary: s) simp_all

lemma push_links_urlSources [simp]: "urlSources (push_links pol url links s) = urlSources s"
  by (induction links arbitrary: s) simp_all

lemma push_links_brokenLinks [simp]: "brokenLinks (push_links pol url links s) = brokenLinks s"
  by (induction links arbitrary: s) simp_all

lemma push_links_currentPageUrl [simp]: "currentPageUrl (push_links pol url links s) = currentPageUrl s"
  by (induction links arbitrary: s) simp_all

lemma push_links_toVisit:
  "toVisit (push_links pol url links s) =
     toVisit s @ map (\<lambda>l. (l, url)) (filter (\<lambda>l. l \<notin> set (visited s) \<and> shouldCrawl pol l) links)"
  by (induction links arbitrary: s) simp_all

lemma push_links_trace:
  "trace (push_links pol url links s) =
     trace s @ map (\<lambda>l. Push (l, url)) (filter (\<lambda>l. l \<notin> set (visited s) \<and> shouldCrawl pol l) links)"
  by (induction links arbitrary: s) simp_all

lemma pushes_append [simp]: "pushes (xs @ ys) = pushes xs @ pushes ys"
  by (induction xs rule: pushes.induct) simp_all

lemma shifts_append [simp]: "shifts (xs @ ys) = shifts xs @ shifts ys"
  by (induction xs rule: shifts.induct) simp_all

lemma gotos_append [simp]: "gotos (xs @ ys) = gotos xs @ gotos ys"
  by (induction xs rule: gotos.induct) simp_all

lemma settles_append [simp]: "settles (xs @ ys) = settles xs @ settles ys"
  by (induction xs rule: settles.induct) simp_all

lemma pushes_map_Push [simp]: "pushes (map (\<lambda>l. Push (f l)) ls) = map f ls"
  by (induction ls) simp_all

lemma shifts_map_Push [simp]: "shifts (map (\<lambda>l. Push (f l)) ls) = []"
  by (induction ls) simp_all

lemma gotos_map_Push [simp]: "gotos (map (\<lambda>l. Push (f l)) ls) = []"
  by (induction ls) simp_all

lemma settles_map_Push [simp]: "settles (map (\<lambda>l. Push (f l)) ls) = []"
  by (induction ls) simp_all

lemma catch_error_fields [simp]:
  "visited (catch_error url f m s) = visited s"
  "toVisit (catch_error url f m s) = toVisit s"
  "urlSources (catch_error url f m s) = urlSources s"
  "currentPageUrl (catch_error url f m s) = currentPageUrl s"
  "trace (catch_error url f m s) = trace s"
  by (simp_all add: catch_error_def)

lemma check_status_fields [simp]:
  "visited (check_status url f st s) = visited s"
  "toVisit (check_status url f st s) = toVisit s"
  "urlSources (check_status url f st s) = urlSources s"
  "currentPageUrl (check_status url f st s) = currentPageUrl s"
  "trace (check_status url f st s) = trace s"
  by (simp_all add: check_status_def)

lemma visit_visited [simp]: "visited (visit pol pg url f s) = visited s"
  by (simp add: visit_def Let_def split: goto_result.splits evaluate_result.splits)

lemma visit_urlSources [simp]: "urlSources (visit pol pg url f s) = urlSources s"
  by (simp add: visit_def Let_def split: goto_result.splits evaluate_result.splits)

lemma visit_currentPageUrl [simp]: "currentPageUrl (visit pol pg url f s) = currentPageUrl s"
  by (simp add: visit_def Let_def split: goto_result.splits evaluate_result.splits)

lemma visit_toVisit:
  "toVisit (visit pol pg url f s) = toVisit s @ map (\<lambda>l. (l, url)) (new_links pol pg (visited s))"
  by (simp add: visit_def new_links_def Let_def push_links_toVisit
           split: goto_result.splits evaluate_result.splits)

lemma visit_pushes:
  "pushes (trace (visit pol pg url f s)) =
     pushes (trace s) @ map (\<lambda>l. (l, url)) (new_links pol pg (visited s))"
  by (simp add: visit_def new_links_def Let_def push_links_trace
           split: goto_result.splits evaluate_result.splits)

lemma visit_shifts [simp]: "shifts (trace (visit pol pg url f s)) = shifts (trace s)"
  by (simp add: visit_def Let_def push_links_trace
           split: goto_result.splits evaluate_result.splits)

lemma visit_gotos [simp]: "gotos (trace (visit pol pg url f s)) = gotos (trace s) @ [url]"
  by (simp add: visit_def Let_def push_links_trace
           split: goto_result.splits evaluate_result.splits)

lemma visit_brokenLinks:
  "\<exists>recs. brokenLinks (visit pol pg url f s) = brokenLinks s @ recs \<and>
          length recs \<le> 1 \<and> (\<forall>r \<in> set recs. bl_url r = url)"
proof (cases "goto_outcome pg")
  case (GotoThrows m)
  then have "brokenLinks (visit pol pg url f s) =
      brokenLinks s @ [\<lparr>bl_url = url, bl_foundOn = f, bl_status = ERROR, bl_error = m\<rparr>]"
    by (simp add: visit_def catch_error_def)
  then show ?thesis by simp
next
  case GotoNull
  then have "brokenLinks (visit pol pg url f s) =
      brokenLinks s @ [\<lparr>bl_url = url, bl_foundOn = f, bl_status = ERROR, bl_error = null_status_message\<rparr>]"
    by (simp add: visit_def catch_error_def)
  then show ?thesis by simp
next
  case (GotoResponse st)
  show ?thesis
  proof (cases "st < 400")
    case False
    with GotoResponse have "brokenLinks (visit pol pg url f s) =
      brokenLinks s @ [\<lparr>bl_url = url, bl_foundOn = f, bl_status = Code st,
         bl_error = (if st = 404 then ''Page not found'' else ''HTTP error '' @ show_nat st)\<rparr>]"
      by (simp add: visit_def check_status_def Let_def)
    then show ?thesis by simp
  next
    case True
    show ?thesis
    proof (cases "evaluate_outcome pg")
      case (EvaluateThrows m)
      with True GotoResponse have "brokenLinks (visit pol pg url f s) =
        brokenLinks s @ [\<lparr>bl_url = url, bl_foundOn = f, bl_status = ERROR, bl_error = m\<rparr>]"
        by (simp add: visit_def check_status_def catch_error_def Let_def)
      then show ?thesis by simp
    next
      case (Hrefs hs)
      with True GotoResponse have "brokenLinks (visit pol pg url f s) = brokenLinks s @ []"
        by (simp add: visit_def check_status_def Let_def)
      then show ?thesis by (intro exI[of _ "[]"]) simp
    qed
  qed
qed

lemma new_links_simps:
  "goto_outcome pg = GotoThrows m \<Longrightarrow> new_links pol pg vis = []"
  "goto_outcome pg = GotoNull \<Longrightarrow> new_links pol pg vis = []"
  "goto_outcome pg = GotoResponse st \<Longrightarrow> \<not> st < 400 \<Longrightarrow> new_links pol pg vis = []"
  "goto_outcome pg = GotoResponse st \<Longrightarrow> st < 400 \<Longrightarrow> evaluate_outcome pg = EvaluateThrows m \<Longrightarrow>
     new_links pol pg vis = []"
  "goto_outcome pg = GotoResponse st \<Longrightarrow> st < 400 \<Longrightarrow> evaluate_outcome pg = Hrefs hs \<Longrightarrow>
     new_links pol pg vis = filter (\<lambda>l. l \<notin> set vis \<and> shouldCrawl pol l) (filter href_wanted hs)"
  by (simp_all add: new_links_def)

lemma new_links_fresh:
  assumes "l \<in> set (new_links pol pg vis)"
  shows "l \<notin> set vis \<and> shouldCrawl pol l"
proof (cases "goto_outcome pg")
  case (GotoThrows m)
  with assms show ?thesis by (simp add: new_links_simps)
next
  case GotoNull
  with assms show ?thesis by (simp add: new_links_simps)
next
  case (GotoResponse st)
  show ?thesis
  proof (cases "st < 400")
    case False
    with assms GotoResponse show ?thesis by (simp add: new_links_simps)
  next
    case True
    show ?thesis
    proof (cases "evaluate_outcome pg")
      case (EvaluateThrows m)
      with assms GotoResponse True show ?thesis by (simp add: new_links_simps)
    next
      case (Hrefs hs)
      with assms GotoResponse True show ?thesis by (simp add: new_links_simps)
    qed
  qed
qed

lemma step_done: "toVisit s = [] \<Longrightarrow> step pol web s = s"
  by (simp add: step_def)

lemma step_skip:
  "toVisit s = (u, f) # rest \<Longrightarrow> u \<in> set (visited s) \<or> \<not> shouldCrawl pol u \<Longrightarrow>
   step pol web s = s\<lparr>toVisit := rest, trace := trace s @ [Shift (u, f)]\<rparr>"
  by (auto simp: step_def)

lemma step_visit:
  "toVisit s = (u, f) # rest \<Longrightarrow> u \<notin> set (visited s) \<Longrightarrow> shouldCrawl pol u \<Longrightarrow>
   step pol web s =
     visit pol (web u) u f
       (s\<lparr>toVisit := rest, trace := trace s @ [Shift (u, f)], visited := visited s @ [u],
          urlSources := (urlSources s)(u \<mapsto> f), currentPageUrl := u\<rparr>)"
  by (simp add: step_def)


lemma crawl_inv_initial: "crawl_inv pol startUrl (initial startUrl)"
  by (simp add: crawl_inv_def initial_def enqueued_def)

lemma comes_before_append: "comes_before b a xs \<Longrightarrow> comes_before b a (xs @ ys)"
  by (induction xs) (auto simp: comes_before_def split: if_splits)

lemma takeWhile_neq_snoc: "a \<notin> set xs \<Longrightarrow> takeWhile (\<lambda>x. x \<noteq> a) (xs @ [a]) = xs"
  by (induction xs) auto

lemma comes_before_snoc: "b \<in> set xs \<Longrightarrow> a \<notin> set xs \<Longrightarrow> comes_before b a (xs @ [a])"
  by (simp add: comes_before_def takeWhile_neq_snoc)

lemma map_of_append_Some: "map_of xs k = Some v \<Longrightarrow> map_of (xs @ ys) k = Some v"
  by (simp add: map_add_Some_iff)

lemma map_of_append_fresh:
  assumes "k \<notin> fst ` set xs"
  shows "map_of (xs @ (k, v) # ys) k = Some v"
proof -
  from assms have "map_of xs k = None" by (simp add: map_of_eq_None_iff)
  then show ?thesis by (simp add: map_add_def)
qed

lemma enqueued_shift [simp]:
  "enqueued startUrl (s\<lparr>toVisit := q, trace := trace s @ [Shift e]\<rparr>) = enqueued startUrl s"
  by (simp add: enqueued_def)

lemma crawl_inv_skip:
  assumes inv: "crawl_inv pol startUrl s"
    and q: "toVisit s = (u, f) # rest"
    and skip: "u \<in> set (visited s) \<or> \<not> shouldCrawl pol u"
  shows "crawl_inv pol startUrl (step pol web s)"
proof -
  let ?s' = "s\<lparr>toVisit := rest, trace := trace s @ [Shift (u, f)]\<rparr>"
  have st: "step pol web s = ?s'" by (rule step_skip[OF q skip])
  from inv q have "enqueued startUrl ?s' = shifts (trace ?s') @ toVisit ?s'"
    by (simp add: crawl_inv_def)
  moreover from inv skip have
    "\<forall>e \<in> set (shifts (trace ?s')). shouldCrawl pol (fst e) \<longrightarrow> fst e \<in> set (visited ?s')"
    by (auto simp: crawl_inv_def)
  ultimately show ?thesis using inv unfolding st crawl_inv_def by simp
qed


lemma crawl_inv_visit:
  assumes inv: "crawl_inv pol startUrl s"
    and q: "toVisit s = (u, f) # rest"
    and fresh: "u \<notin> set (visited s)"
    and scope: "shouldCrawl pol u"
  shows "crawl_inv pol startUrl (step pol web s)"
proof -
  let ?s0 = "s\<lparr>toVisit := rest, trace := trace s @ [Shift (u, f)], visited := visited s @ [u],
                urlSources := (urlSources s)(u \<mapsto> f), currentPageUrl := u\<rparr>"
  let ?s' = "visit pol (web u) u f ?s0"
  let ?N = "map (\<lambda>l. (l, u)) (new_links pol (web u) (visited s @ [u]))"
  have st: "step pol web s = ?s'" by (rule step_visit[OF q fresh scope])
  have vis: "visited ?s' = visited s @ [u]" by simp
  have src: "urlSources ?s' = (urlSources s)(u \<mapsto> f)" by simp
  have tv: "toVisit ?s' = rest @ ?N" by (simp add: visit_toVisit)
  have pu: "pushes (trace ?s') = pushes (trace s) @ ?N" by (simp add: visit_pushes)
  have sh: "shifts (trace ?s') = shifts (trace s) @ [(u, f)]" by simp
  have go: "gotos (trace ?s') = gotos (trace s) @ [u]" by simp
  have enq: "enqueued startUrl ?s' = enqueued startUrl s @ ?N"
    by (simp add: enqueued_def pu)
  from inv have fifo: "enqueued startUrl s = shifts (trace s) @ toVisit s"
    and gv: "gotos (trace s) = visited s"
    and dv: "distinct (visited s)"
    and dom: "dom (urlSources s) = set (visited s)"
    and prov: "\<forall>x \<in> set (visited s). shouldCrawl pol x \<and> urlSources s x = map_of (enqueued startUrl s) x"
    and shi: "\<forall>e \<in> set (shifts (trace s)). shouldCrawl pol (fst e) \<longrightarrow> fst e \<in> set (visited s)"
    and pui: "\<forall>e \<in> set (pushes (trace s)).
        shouldCrawl pol (fst e) \<and> snd e \<in> set (visited s) \<and>
        (fst e \<in> set (visited s) \<longrightarrow> comes_before (snd e) (fst e) (visited s))"
    and bld: "distinct (map bl_url (brokenLinks s))"
    and bls: "set (map bl_url (brokenLinks s)) \<subseteq> set (visited s)"
    by (simp_all add: crawl_inv_def)
  have c1: "enqueued startUrl ?s' = shifts (trace ?s') @ toVisit ?s'"
    unfolding enq sh tv using fifo q by simp
  have c2: "gotos (trace ?s') = visited ?s'"
    unfolding go vis using gv by simp
  have c3: "distinct (visited ?s')"
    unfolding vis using dv fresh by simp
  have c4: "dom (urlSources ?s') = set (visited ?s')"
    unfolding src vis using dom by auto
  have c5: "\<forall>x \<in> set (visited ?s'). shouldCrawl pol x \<and> urlSources ?s' x = map_of (enqueued startUrl ?s') x"
  proof
    fix x assume "x \<in> set (visited ?s')"
    then have "x \<in> set (visited s) \<or> x = u" unfolding vis by auto
    then show "shouldCrawl pol x \<and> urlSources ?s' x = map_of (enqueued startUrl ?s') x"
    proof
      assume xin: "x \<in> set (visited s)"
      with fresh have ne: "x \<noteq> u" by auto
      from xin dom obtain v where v: "urlSources s x = Some v" by auto
      with prov xin have "map_of (enqueued startUrl s) x = Some v" by simp
      then have "map_of (enqueued startUrl s @ ?N) x = Some v" by (rule map_of_append_Some)
      with v ne prov xin show ?thesis unfolding src enq by simp
    next
      assume xu: "x = u"
      have "u \<notin> fst ` set (shifts (trace s))"
      proof
        assume "u \<in> fst ` set (shifts (trace s))"
        then obtain e where "e \<in> set (shifts (trace s))" "fst e = u" by auto
        with shi scope have "u \<in> set (visited s)" by auto
        with fresh show False by simp
      qed
      then have "map_of (shifts (trace s) @ (u, f) # (rest @ ?N)) u = Some f"
        by (rule map_of_append_fresh)
      moreover have "enqueued startUrl s @ ?N = shifts (trace s) @ (u, f) # (rest @ ?N)"
        using fifo q by simp
      ultimately show ?thesis using xu scope unfolding src enq by simp
    qed
  qed
  have c6: "\<forall>e \<in> set (shifts (trace ?s')). shouldCrawl pol (fst e) \<longrightarrow> fst e \<in> set (visited ?s')"
    unfolding sh vis using shi by auto
  have c7: "\<forall>e \<in> set (pushes (trace ?s')).
        shouldCrawl pol (fst e) \<and> snd e \<in> set (visited ?s') \<and>
        (fst e \<in> set (visited ?s') \<longrightarrow> comes_before (snd e) (fst e) (visited ?s'))"
  proof
    fix e assume "e \<in> set (pushes (trace ?s'))"
    then have "e \<in> set (pushes (trace s)) \<or> e \<in> set ?N" unfolding pu by auto
    then show "shouldCrawl pol (fst e) \<and> snd e \<in> set (visited ?s') \<and>
        (fst e \<in> set (visited ?s') \<longrightarrow> comes_before (snd e) (fst e) (visited ?s'))"
    proof
      assume old: "e \<in> set (pushes (trace s))"
      with pui have a: "shouldCrawl pol (fst e)" and b: "snd e \<in> set (visited s)"
        and c: "fst e \<in> set (visited s) \<longrightarrow> comes_before (snd e) (fst e) (visited s)"
        by auto
      have "comes_before (snd e) (fst e) (visited s @ [u])" if "fst e \<in> set (visited s @ [u])"
      proof (cases "fst e \<in> set (visited s)")
        case True
        with c show ?thesis by (simp add: comes_before_append)
      next
        case False
        with that have "fst e = u" by simp
        with b fresh show ?thesis by (simp add: comes_before_snoc)
      qed
      with a b show ?thesis unfolding vis by simp
    next
      assume "e \<in> set ?N"
      then obtain l where l: "l \<in> set (new_links pol (web u) (visited s @ [u]))" and e: "e = (l, u)"
        by auto
      from new_links_fresh[OF l] e show ?thesis unfolding vis by simp
    qed
  qed
  obtain recs where recs: "brokenLinks ?s' = brokenLinks ?s0 @ recs" "length recs \<le> 1"
      "\<forall>r \<in> set recs. bl_url r = u"
    using visit_brokenLinks[of pol "web u" u f ?s0] by blast
  have dr: "distinct (map bl_url recs)"
    using recs(2) by (cases recs) auto
  have c8: "distinct (map bl_url (brokenLinks ?s'))"
    using bld bls fresh recs(3) dr unfolding recs(1) by auto
  have c9: "set (map bl_url (brokenLinks ?s')) \<subseteq> set (visited ?s')"
    using bls recs(3) unfolding recs(1) vis by auto
  show ?thesis
    unfolding st crawl_inv_def using c1 c2 c3 c4 c5 c6 c7 c8 c9 by blast
qed

lemma crawl_inv_step: "crawl_inv pol startUrl s \<Longrightarrow> crawl_inv pol startUrl (step pol web s)"
proof (cases "toVisit s")
  case Nil
  assume "crawl_inv pol startUrl s"
  with Nil show ?thesis by (simp add: step_done)
next
  case (Cons e rest)
  assume inv: "crawl_inv pol startUrl s"
  obtain u f where e: "e = (u, f)" by (cases e)
  show ?thesis
  proof (cases "u \<in> set (visited s) \<or> \<not> shouldCrawl pol u")
    case True
    with inv Cons e show ?thesis by (simp add: crawl_inv_skip)
  next
    case False
    with inv Cons e show ?thesis by (simp add: crawl_inv_visit)
  qed
qed

lemma crawl_at_Suc: "crawl_at pol web startUrl (Suc n) = step pol web (crawl_at pol web startUrl n)"
  by (simp add: crawl_at_def)

lemma crawl_inv_crawl_at: "crawl_inv pol startUrl (crawl_at pol web startUrl n)"
proof (induction n)
  case 0
  show ?case by (simp add: crawl_at_def crawl_inv_initial)
next
  case (Suc n)
  then show ?case by (simp only: crawl_at_Suc crawl_inv_step)
qed

section \<open>Deriving the patterns from the seed\<close>

lemma contextMatch_Cons:
  "contextMatch (c # cs) =
     (if context_at (c # cs) 0 then Some (takeWhile token_char (drop 8 (c # cs))) else contextMatch cs)"
  by (simp add: context_at_def)

lemma context_at_Suc: "context_at (c # cs) (Suc i) = context_at cs i"
  unfolding context_at_def by (simp only: add_Suc drop_Suc_Cons)

lemma context_at_Nil: "\<not> context_at [] i"
  by (simp add: context_at_def)

lemma contextMatch_leftmost:
  "context_at s i \<Longrightarrow> (\<forall>j<i. \<not> context_at s j) \<Longrightarrow>
   contextMatch s = Some (takeWhile token_char (drop (i + 8) s))"
proof (induction i arbitrary: s)
  case 0
  then obtain c cs where s: "s = c # cs" by (cases s) (auto simp: context_at_Nil)
  with 0 show ?case by (simp only: contextMatch_Cons) simp
next
  case (Suc i)
  then obtain c cs where s: "s = c # cs" by (cases s) (auto simp: context_at_Nil)
  from Suc.prems s have a: "context_at cs i" by (simp add: context_at_Suc)
  have b: "\<forall>j<i. \<not> context_at cs j"
  proof (intro allI impI)
    fix j assume "j < i"
    then have "Suc j < Suc i" by simp
    with Suc.prems(2) have "\<not> context_at s (Suc j)" by blast
    then show "\<not> context_at cs j" by (simp add: s context_at_Suc)
  qed
  from Suc.prems(2) have "\<not> context_at s 0" by blast
  then have "contextMatch s = contextMatch cs" unfolding s by (simp only: contextMatch_Cons if_False)
  also have "\<dots> = Some (takeWhile token_char (drop (i + 8) cs))" by (rule Suc.IH[OF a b])
  finally show ?case by (simp only: s add_Suc drop_Suc_Cons)
qed

lemma contextMatch_none: "(\<forall>i. \<not> context_at s i) \<Longrightarrow> contextMatch s = None"
proof (induction s)
  case Nil
  show ?case by simp
next
  case (Cons c cs)
  have "\<forall>i. \<not> context_at cs i"
  proof
    fix i from Cons.prems have "\<not> context_at (c # cs) (Suc i)" by blast
    then show "\<not> context_at cs i" by (simp add: context_at_Suc)
  qed
  then have "contextMatch cs = None" by (rule Cons.IH)
  moreover from Cons.prems have "\<not> context_at (c # cs) 0" by blast
  ultimately show ?case by (simp only: contextMatch_Cons if_False)
qed

text \<open>
  C9, as stated: the token is the run after the first occurrence of \<^verbatim>\<open>context:\<close>.
  On the seed below the first occurrence is followed by \<^verbatim>\<open>/\<close>, so that reading gives
  an empty token, while the regular expression moves on to the second occurrence.
\<close>

theorem allowedPatterns_of_first_occurrence_counterexample:
  "token_after_first_context ''https://x.test/context:/context:abc'' = Some [] \<and>
   claimed_patterns ''https://x.test/context:/context:abc'' = [''context:'', ''o:''] \<and>
   allowedPatterns_of ''https://x.test/context:/context:abc'' = [''context:abc'', ''o:abc'']"
  by (simp add: claimed_patterns_def allowedPatterns_of_def token_char_def)

text \<open>
  C9, amended: if \<open>i\<close> is the first offset of the seed at which \<^verbatim>\<open>context:\<close> is followed
  by at least one character other than \<^verbatim>\<open>/\<close>, \<^verbatim>\<open>?\<close>, \<^verbatim>\<open>#\<close>, the patterns are exactly
  \<^verbatim>\<open>context:<token>\<close> and \<^verbatim>\<open>o:<token>\<close>, in this order, where the token is the longest
  run of such characters after that occurrence; if there is no such offset, there are no
  patterns.
\<close>

theorem allowedPatterns_of_leftmost:
  "(context_at startUrl i \<and> (\<forall>j<i. \<not> context_at startUrl j) \<longrightarrow>
      allowedPatterns_of startUrl =
        [''context:'' @ takeWhile token_char (drop (i + 8) startUrl),
         ''o:'' @ takeWhile token_char (drop (i + 8) startUrl)]) \<and>
   ((\<forall>j. \<not> context_at startUrl j) \<longrightarrow> allowedPatterns_of startUrl = [])"
proof (intro conjI impI)
  assume h: "context_at startUrl i \<and> (\<forall>j<i. \<not> context_at startUrl j)"
  then have "contextMatch startUrl = Some (takeWhile token_char (drop (i + 8) startUrl))"
    by (simp add: contextMatch_leftmost)
  moreover from h have "takeWhile token_char (drop (i + 8) startUrl) \<noteq> []"
    by (simp add: context_at_def)
  ultimately show "allowedPatterns_of startUrl =
        [''context:'' @ takeWhile token_char (drop (i + 8) startUrl),
         ''o:'' @ takeWhile token_char (drop (i + 8) startUrl)]"
    by (simp add: allowedPatterns_of_def)
next
  assume "\<forall>j. \<not> context_at startUrl j"
  then have "contextMatch startUrl = None" by (rule contextMatch_none)
  then show "allowedPatterns_of startUrl = []" by (simp add: allowedPatterns_of_def)
qed

lemma example_leftmost: "list_all (\<lambda>j. \<not> context_at ''https://x.test/context:/context:abc?q=1'' j) [0..<24]"
  by code_simp

theorem allowedPatterns_of_leftmost_witness:
  "context_at ''https://x.test/context:/context:abc?q=1'' 24 \<and>
   list_all (\<lambda>j. \<not> context_at ''https://x.test/context:/context:abc?q=1'' j) [0..<24] \<and>
   allowedPatterns_of ''https://x.test/context:/context:abc?q=1'' = [''context:abc'', ''o:abc''] \<and>
   (\<forall>j. \<not> context_at ''https://x.test/'' j) \<and>
   allowedPatterns_of ''https://x.test/'' = []"
proof -
  let ?s = "''https://x.test/context:/context:abc?q=1''"
  have a: "context_at ?s 24" by code_simp
  have b: "\<forall>j<24. \<not> context_at ?s j"
    using example_leftmost by (simp add: list_all_iff)
  have tok: "takeWhile token_char (drop (24 + 8) ?s) = ''abc''" by code_simp
  have c: "\<forall>j. \<not> context_at ''https://x.test/'' j"
  proof
    fix j :: nat
    have "j < 15 \<or> 15 \<le> j" by arith
    then show "\<not> context_at ''https://x.test/'' j"
    proof
      assume "j < 15"
      moreover have "list_all (\<lambda>j. \<not> context_at ''https://x.test/'' j) [0..<15]" by code_simp
      ultimately show ?thesis by (simp add: list_all_iff)
    next
      assume "15 \<le> j"
      then show ?thesis by (simp add: context_at_def)
    qed
  qed
  from allowedPatterns_of_leftmost[of ?s 24] a b tok
  have "allowedPatterns_of ?s = [''context:abc'', ''o:abc'']" by simp
  moreover from allowedPatterns_of_leftmost[of "''https://x.test/''" 0] c
  have "allowedPatterns_of ''https://x.test/'' = []" by blast
  ultimately show ?thesis using a example_leftmost c by blast
qed

section \<open>The origin of a URL\<close>

lemmas origin_simps = http_origin_def url_trim_def authority_origin_def ascii_lower_def
  c0_or_space_def tab_or_newline_def slash_def authority_end_def letter_def digit_def host_char_def
  last_label_def digits_value_def default_port_def Let_def

text \<open>The model of the parser on the seed the program ships with, and on other forms.\<close>

lemma http_origin_shipped_seed:
  "http_origin ''https://gams.uni-graz.at/context:lidal'' = Some ''https://gams.uni-graz.at''"
  by (simp add: origin_simps)

lemma http_origin_case_and_port:
  "http_origin ''HTTP://X1.test:8080?q'' = Some ''http://x1.test:8080''"
  by (simp add: origin_simps)

lemma http_origin_default_port:
  "http_origin ''https://x.test:443/context:proj'' = Some ''https://x.test''"
  by (simp add: origin_simps)

lemma http_origin_bad_port: "http_origin ''http://x.test:65536/'' = None"
  by (simp add: origin_simps)

lemma http_origin_example_seed:
  "http_origin ''https://x.test/context:proj'' = Some ''https://x.test''"
  by (simp add: origin_simps)

lemma http_origin_foreign:
  "http_origin ''https://x.test.evil.com/context:proj'' = Some ''https://x.test.evil.com''"
  by (simp add: origin_simps)

section \<open>The scope test\<close>

text \<open>What \<open>shouldCrawl\<close> decides, in terms of the text of the URL alone.\<close>

lemma shouldCrawl_iff:
  "shouldCrawl pol url \<longleftrightarrow>
     (\<exists>r. url = domain pol @ r) \<and>
     (allowedPatterns pol = [] \<or> (\<exists>p \<in> set (allowedPatterns pol). \<exists>a b. url = a @ p @ b))"
  by (auto simp: shouldCrawl_def list_ex_iff startsWith_iff str_includes_iff)

text \<open>
  C1: the scope test should accept a URL only if its origin equals the origin of the seed.
  The test compares a prefix of the text instead: with the seed
  \<^verbatim>\<open>https://x.test/context:proj\<close> it accepts \<^verbatim>\<open>https://x.test.evil.com/context:proj\<close>,
  whose origin is \<^verbatim>\<open>https://x.test.evil.com\<close>.
\<close>

theorem shouldCrawl_foreign_origin:
  "derive_policy http_origin ''https://x.test/context:proj'' =
     Inr \<lparr>domain = ''https://x.test'', allowedPatterns = [''context:proj'', ''o:proj'']\<rparr> \<and>
   http_origin ''https://x.test.evil.com/context:proj'' = Some ''https://x.test.evil.com'' \<and>
   shouldCrawl \<lparr>domain = ''https://x.test'', allowedPatterns = [''context:proj'', ''o:proj'']\<rparr>
     ''https://x.test.evil.com/context:proj''"
  by (simp add: derive_policy_def http_origin_example_seed http_origin_foreign token_char_def
        allowedPatterns_of_def shouldCrawl_def)

section \<open>The event handlers\<close>

text \<open>
  What the response handler appends: one record if the status is 404, the text of the URL
  starts with the origin of the crawl and \<open>shouldCrawl\<close> accepts it, and nothing
  otherwise; the record has status 404 and the page that is active at that moment.
\<close>

lemma response_recorded_iff:
  "resourceErrors (handle pol \<lparr>ev = HttpResponse status resourceUrl, page_url = p, now = t\<rparr> s) =
     resourceErrors s @
       (if status = 404 \<and> startsWith resourceUrl (domain pol) \<and> shouldCrawl pol resourceUrl
        then [\<lparr>re_resourceUrl = resourceUrl, re_pageUrl = currentPageUrl s, re_status = 404,
               re_timestamp = t\<rparr>]
        else [])"
  by (simp add: handle_def onResponse_def shouldCrawl_def Let_def)

text \<open>
  C4: a record should be appended only for a response whose URL is in scope, that is, of
  the origin of the crawl. The handler tests a prefix of the text, like \<open>shouldCrawl\<close>:
  a 404 response from \<^verbatim>\<open>https://x.test.evil.com/o:proj/x.png\<close>, of another origin, is
  recorded in a crawl of \<^verbatim>\<open>https://x.test\<close>.
\<close>

theorem foreign_response_recorded:
  "http_origin example_seed = Some (domain example_policy) \<and>
   http_origin ''https://x.test.evil.com/o:proj/x.png'' = Some ''https://x.test.evil.com'' \<and>
   resourceErrors
     (handle example_policy
        \<lparr>ev = HttpResponse 404 ''https://x.test.evil.com/o:proj/x.png'', page_url = example_seed,
          now = ''2024-01-01T00:00:00.000Z''\<rparr>
        ((initial example_seed)\<lparr>currentPageUrl := example_seed\<rparr>)) =
     [\<lparr>re_resourceUrl = ''https://x.test.evil.com/o:proj/x.png'', re_pageUrl = example_seed,
       re_status = 404, re_timestamp = ''2024-01-01T00:00:00.000Z''\<rparr>]"
proof -
  have "http_origin ''https://x.test.evil.com/o:proj/x.png'' = Some ''https://x.test.evil.com''"
    by (simp add: origin_simps)
  then show ?thesis
    by (simp add: http_origin_example_seed example_policy_def handle_def onResponse_def
          initial_def Let_def)
qed

text \<open>
  C10: while the pointer to the active page still holds the empty string, a qualifying 404
  response is recorded with the empty string as its \<open>pageUrl\<close>, whereas a console error
  and an uncaught exception are recorded with the current URL of the browser.
\<close>

theorem handlers_without_active_page:
  assumes "currentPageUrl s = []"
  shows "(status = 404 \<and> startsWith resourceUrl (domain pol) \<and> shouldCrawl pol resourceUrl \<longrightarrow>
            resourceErrors (handle pol \<lparr>ev = HttpResponse status resourceUrl, page_url = p, now = t\<rparr> s) =
              resourceErrors s @
                [\<lparr>re_resourceUrl = resourceUrl, re_pageUrl = [], re_status = 404, re_timestamp = t\<rparr>]) \<and>
         errorsFound (handle pol \<lparr>ev = ConsoleMsg ''error'' msg_text, page_url = p, now = t\<rparr> s) =
           errorsFound s @ [\<lparr>ce_url = p, ce_error = msg_text, ce_timestamp = t\<rparr>] \<and>
         errorsFound (handle pol \<lparr>ev = PageError message, page_url = p, now = t\<rparr> s) =
           errorsFound s @ [\<lparr>ce_url = p, ce_error = ''PAGE ERROR: '' @ message, ce_timestamp = t\<rparr>]"
  using assms
  by (simp add: handle_def onResponse_def onConsole_def onPageError_def js_or_def shouldCrawl_def Let_def)

theorem handlers_without_active_page_witness:
  "currentPageUrl (initial ''https://x.test/context:proj'') = [] \<and>
   resourceErrors
     (handle \<lparr>domain = ''https://x.test'', allowedPatterns = [''context:proj'', ''o:proj'']\<rparr>
        \<lparr>ev = HttpResponse 404 ''https://x.test/o:proj/logo.png'', page_url = ''about:blank'',
          now = ''2024-01-01T00:00:00.000Z''\<rparr>
        (initial ''https://x.test/context:proj'')) =
     [\<lparr>re_resourceUrl = ''https://x.test/o:proj/logo.png'', re_pageUrl = [],
       re_status = 404, re_timestamp = ''2024-01-01T00:00:00.000Z''\<rparr>] \<and>
   errorsFound
     (handle \<lparr>domain = ''https://x.test'', allowedPatterns = [''context:proj'', ''o:proj'']\<rparr>
        \<lparr>ev = ConsoleMsg ''error'' ''boom'', page_url = ''about:blank'',
          now = ''2024-01-01T00:00:00.000Z''\<rparr>
        (initial ''https://x.test/context:proj'')) =
     [\<lparr>ce_url = ''about:blank'', ce_error = ''boom'', ce_timestamp = ''2024-01-01T00:00:00.000Z''\<rparr>]"
proof -
  let ?pol = "\<lparr>domain = ''https://x.test'', allowedPatterns = [''context:proj'', ''o:proj'']\<rparr>"
  let ?s = "initial ''https://x.test/context:proj''"
  have e: "currentPageUrl ?s = []" by (simp add: initial_def)
  have a: "startsWith ''https://x.test/o:proj/logo.png'' (domain ?pol)" by simp
  have b: "shouldCrawl ?pol ''https://x.test/o:proj/logo.png''" by (simp add: shouldCrawl_def)
  have r: "resourceErrors ?s = []" and c: "errorsFound ?s = []" by (simp_all add: initial_def)
  from handlers_without_active_page[OF e, of 404 "''https://x.test/o:proj/logo.png''" ?pol
      "''about:blank''" "''2024-01-01T00:00:00.000Z''" "''boom''"] a b e r c
  show ?thesis by simp
qed

section \<open>The crawl of the small site\<close>

lemmas example_simps = example_policy_def example_web_def step_def visit_def check_status_def
  catch_error_def shouldCrawl_def href_wanted_def Let_def

lemma example_state_1:
  "crawl_at example_policy example_web example_seed (Suc 0) =
     \<lparr>visited = [example_seed], errorsFound = [],
      toVisit = [(example_page_a, example_seed),
                 (example_page_a, example_seed),
                 (example_page_b, example_seed)],
      urlSources = [example_seed \<mapsto> ''START''],
      brokenLinks = [], resourceErrors = [],
      currentPageUrl = example_seed,
      trace = [Shift (example_seed, ''START''), Goto example_seed,
               Settle 1000, Evaluate,
               Push (example_page_a, example_seed),
               Push (example_page_a, example_seed),
               Push (example_page_b, example_seed)]\<rparr>"
  by (simp add: crawl_at_def initial_def example_simps)

lemma example_state_2:
  "crawl_at example_policy example_web example_seed 2 =
     \<lparr>visited = [example_seed, example_page_a], errorsFound = [],
      toVisit = [(example_page_a, example_seed),
                 (example_page_b, example_seed)],
      urlSources = [example_seed \<mapsto> ''START'',
                    example_page_a \<mapsto> example_seed],
      brokenLinks = [\<lparr>bl_url = example_page_a, bl_foundOn = example_seed,
                       bl_status = Code 404, bl_error = ''Page not found''\<rparr>],
      resourceErrors = [],
      currentPageUrl = example_page_a,
      trace = [Shift (example_seed, ''START''), Goto example_seed,
               Settle 1000, Evaluate,
               Push (example_page_a, example_seed),
               Push (example_page_a, example_seed),
               Push (example_page_b, example_seed),
               Shift (example_page_a, example_seed),
               Goto example_page_a, Settle 1000]\<rparr>"
proof -
  have "crawl_at example_policy example_web example_seed 2 =
        step example_policy example_web (crawl_at example_policy example_web example_seed (Suc 0))"
    by (simp add: crawl_at_def numeral_2_eq_2)
  then show ?thesis
    by (simp only: example_state_1) (simp add: example_simps)
qed


lemma example_state_3:
  "crawl_at example_policy example_web example_seed 3 =
     \<lparr>visited = [example_seed, example_page_a], errorsFound = [],
      toVisit = [(example_page_b, example_seed)],
      urlSources = [example_seed \<mapsto> ''START'',
                    example_page_a \<mapsto> example_seed],
      brokenLinks = [\<lparr>bl_url = example_page_a, bl_foundOn = example_seed,
                       bl_status = Code 404, bl_error = ''Page not found''\<rparr>],
      resourceErrors = [],
      currentPageUrl = example_page_a,
      trace = [Shift (example_seed, ''START''), Goto example_seed,
               Settle 1000, Evaluate,
               Push (example_page_a, example_seed),
               Push (example_page_a, example_seed),
               Push (example_page_b, example_seed),
               Shift (example_page_a, example_seed),
               Goto example_page_a, Settle 1000,
               Shift (example_page_a, example_seed)]\<rparr>"
proof -
  have "crawl_at example_policy example_web example_seed 3 =
        step example_policy example_web (crawl_at example_policy example_web example_seed 2)"
    by (simp add: crawl_at_def numeral_3_eq_3 numeral_2_eq_2)
  then show ?thesis
    by (simp only: example_state_2) (simp add: example_simps)
qed

lemma example_state_4:
  "crawl_at example_policy example_web example_seed 4 =
     \<lparr>visited = [example_seed, example_page_a, example_page_b],
      errorsFound = [],
      toVisit = [],
      urlSources = [example_seed \<mapsto> ''START'',
                    example_page_a \<mapsto> example_seed,
                    example_page_b \<mapsto> example_seed],
      brokenLinks = [\<lparr>bl_url = example_page_a, bl_foundOn = example_seed,
                       bl_status = Code 404, bl_error = ''Page not found''\<rparr>,
                     \<lparr>bl_url = example_page_b, bl_foundOn = example_seed,
                       bl_status = ERROR, bl_error = ''Navigation timeout of 30000 ms exceeded''\<rparr>],
      resourceErrors = [],
      currentPageUrl = example_page_b,
      trace = [Shift (example_seed, ''START''), Goto example_seed,
               Settle 1000, Evaluate,
               Push (example_page_a, example_seed),
               Push (example_page_a, example_seed),
               Push (example_page_b, example_seed),
               Shift (example_page_a, example_seed),
               Goto example_page_a, Settle 1000,
               Shift (example_page_a, example_seed),
               Shift (example_page_b, example_seed),
               Goto example_page_b]\<rparr>"
proof -
  have "crawl_at example_policy example_web example_seed 4 =
        step example_policy example_web (crawl_at example_policy example_web example_seed 3)"
    by (simp add: crawl_at_def eval_nat_numeral)
  then show ?thesis
    by (simp only: example_state_3) (simp add: example_simps)
qed


section \<open>The loop and its iterations\<close>

lemma step_idle: "toVisit s = [] \<Longrightarrow> (step pol web ^^ n) s = s"
  by (induction n) (simp_all add: step_done)

lemma crawl_loop_eq:
  "crawl_loop pol web fuel s =
     (if toVisit ((step pol web ^^ fuel) s) = [] then Some ((step pol web ^^ fuel) s) else None)"
proof (induction fuel arbitrary: s)
  case 0
  show ?case by simp
next
  case (Suc fuel)
  show ?case
  proof (cases "toVisit s = []")
    case True
    then have "(step pol web ^^ Suc fuel) s = s" by (rule step_idle)
    with True show ?thesis by simp
  next
    case False
    then have "crawl_loop pol web (Suc fuel) s = crawl_loop pol web fuel (step pol web s)" by simp
    also have "\<dots> = (if toVisit ((step pol web ^^ fuel) (step pol web s)) = []
                      then Some ((step pol web ^^ fuel) (step pol web s)) else None)"
      by (rule Suc.IH)
    finally show ?thesis by (simp only: funpow_Suc_right o_apply)
  qed
qed

lemma example_crawl_returns:
  "crawlForErrors http_origin example_web 4 example_seed =
     Some (Inr (crawl_at example_policy example_web example_seed 4))"
proof -
  have "derive_policy http_origin example_seed = Inr example_policy"
    by (simp add: derive_policy_def http_origin_example_seed token_char_def
          allowedPatterns_of_def example_policy_def)
  moreover have "toVisit (crawl_at example_policy example_web example_seed 4) = []"
    by (simp add: example_state_4)
  ultimately show ?thesis
    by (simp add: crawlForErrors_def crawl_loop_eq crawl_at_def)
qed

section \<open>One visit\<close>

lemma visit_settles:
  "settles (trace (visit pol pg url f s)) =
     settles (trace s) @ (case goto_outcome pg of GotoResponse status \<Rightarrow> [1000] | _ \<Rightarrow> [])"
  by (simp add: visit_def Let_def push_links_trace split: goto_result.splits evaluate_result.splits)

text \<open>
  C2, as stated: no settle pause after a 4xx or 5xx status. In the crawl of the small site
  the second iteration visits a page that answers 404, and the pause of 1000 ms follows
  the navigation all the same.
\<close>

theorem settle_example_counterexample:
  "goto_outcome (example_web example_page_a) = GotoResponse 404 \<and>
   trace (crawl_at example_policy example_web example_seed 2) =
     trace (crawl_at example_policy example_web example_seed (Suc 0)) @
       [Shift (example_page_a, example_seed),
        Goto example_page_a, Settle 1000]"
  by (simp add: example_state_1 example_state_2) (simp add: example_web_def)

text \<open>
  C2, amended: in the visit of a URL that is popped and processed, the pause of 1000 ms is
  executed exactly when navigation returned a response, whatever its status; it is skipped
  only when navigation raised.
\<close>

theorem settle_after_every_response:
  assumes "toVisit s = (u, f) # rest" and "u \<notin> set (visited s)" and "shouldCrawl pol u"
  shows "settles (trace (step pol web s)) =
           settles (trace s) @ (case goto_outcome (web u) of GotoResponse status \<Rightarrow> [1000] | _ \<Rightarrow> [])"
  by (simp add: step_visit[OF assms] visit_settles)


lemma example_step_2:
  "step example_policy example_web (crawl_at example_policy example_web example_seed (Suc 0)) =
   crawl_at example_policy example_web example_seed 2"
  by (simp add: crawl_at_def numeral_2_eq_2)

lemma example_step_4:
  "step example_policy example_web (crawl_at example_policy example_web example_seed 3) =
   crawl_at example_policy example_web example_seed 4"
  by (simp add: crawl_at_def eval_nat_numeral)

text \<open>
  The visit of the page answering 404 adds one pause; the visit that times out adds none.
\<close>

theorem settle_after_every_response_witness:
  "settles (trace (crawl_at example_policy example_web example_seed 2)) = [1000, 1000] \<and>
   settles (trace (crawl_at example_policy example_web example_seed 4)) = [1000, 1000]"
proof -
  let ?s1 = "crawl_at example_policy example_web example_seed (Suc 0)"
  let ?s3 = "crawl_at example_policy example_web example_seed 3"
  have q1: "toVisit ?s1 = (example_page_a, example_seed) #
              [(example_page_a, example_seed),
               (example_page_b, example_seed)]"
    by (simp add: example_state_1)
  have f1: "example_page_a \<notin> set (visited ?s1)" by (simp add: example_state_1)
  have c1: "shouldCrawl example_policy example_page_a"
    by (simp add: shouldCrawl_def example_policy_def)
  have q3: "toVisit ?s3 = (example_page_b, example_seed) # []"
    by (simp add: example_state_3)
  have f3: "example_page_b \<notin> set (visited ?s3)" by (simp add: example_state_3)
  have c3: "shouldCrawl example_policy example_page_b"
    by (simp add: shouldCrawl_def example_policy_def)
  have t1: "settles (trace ?s1) = [1000]" by (simp add: example_state_1)
  have t3: "settles (trace ?s3) = [1000, 1000]" by (simp add: example_state_3)
  have g1: "goto_outcome (example_web example_page_a) = GotoResponse 404"
    by (simp add: example_web_def)
  have g3: "goto_outcome (example_web example_page_b) =
              GotoThrows ''Navigation timeout of 30000 ms exceeded''"
    by (simp add: example_web_def)
  from settle_after_every_response[OF q1 f1 c1, of example_web]
  have "settles (trace (crawl_at example_policy example_web example_seed 2)) = [1000, 1000]"
    by (simp only: example_step_2 t1 g1) simp
  moreover from settle_after_every_response[OF q3 f3 c3, of example_web]
  have "settles (trace (crawl_at example_policy example_web example_seed 4)) = [1000, 1000]"
    by (simp only: example_step_4 t3 g3) simp
  ultimately show ?thesis by simp
qed






section \<open>Properties of every crawl\<close>

lemma map_of_first:
  "map_of xs k = Some v \<Longrightarrow> \<exists>pre post. xs = pre @ (k, v) # post \<and> k \<notin> fst ` set pre"
proof (induction xs)
  case Nil
  then show ?case by simp
next
  case (Cons x xs)
  show ?case
  proof (cases "fst x = k")
    case True
    with Cons.prems have "x = (k, v)" by (cases x) simp
    then have "x # xs = [] @ (k, v) # xs \<and> k \<notin> fst ` set []" by simp
    then show ?thesis by blast
  next
    case False
    with Cons.prems have "map_of xs k = Some v" by (cases x) simp
    then obtain pre post where "xs = pre @ (k, v) # post" "k \<notin> fst ` set pre"
      using Cons.IH by blast
    with False have "x # xs = (x # pre) @ (k, v) # post \<and> k \<notin> fst ` set (x # pre)" by auto
    then show ?thesis by blast
  qed
qed

text \<open>
  C5: after any number of iterations, the URLs navigated to are the visited URLs, in the
  same order, and no URL occurs twice among them; no two records of \<open>brokenLinks\<close> are
  for the same URL.
\<close>

theorem visited_at_most_once:
  "gotos (trace (crawl_at pol web startUrl n)) = visited (crawl_at pol web startUrl n) \<and>
   distinct (visited (crawl_at pol web startUrl n)) \<and>
   distinct (map bl_url (brokenLinks (crawl_at pol web startUrl n)))"
  using crawl_inv_crawl_at[of pol startUrl web n] by (simp add: crawl_inv_def)

text \<open>
  In the crawl of the small site one URL is pushed twice and navigated to once.
\<close>

theorem visited_at_most_once_witness:
  "count_list (map fst (pushes (trace (crawl_at example_policy example_web example_seed 4))))
     example_page_a = 2 \<and>
   gotos (trace (crawl_at example_policy example_web example_seed 4)) =
     [example_seed, example_page_a, example_page_b] \<and>
   distinct (gotos (trace (crawl_at example_policy example_web example_seed 4)))"
proof -
  let ?s = "crawl_at example_policy example_web example_seed 4"
  have v: "visited ?s = [example_seed, example_page_a, example_page_b]"
    by (simp add: example_state_4)
  have c: "count_list (map fst (pushes (trace ?s))) example_page_a = 2"
    by (simp add: example_state_4)
  from visited_at_most_once[of example_policy example_web example_seed 4]
  have "gotos (trace ?s) = visited ?s" and "distinct (visited ?s)" by simp_all
  then have "gotos (trace ?s) = [example_seed, example_page_a, example_page_b]"
    and "distinct (gotos (trace ?s))" by (simp_all only: v)
  with c show ?thesis by blast
qed

text \<open>
  C6: after any number of iterations, the keys of \<open>urlSources\<close> are the visited URLs; the
  entry of a visited URL is the \<open>foundOn\<close> of the earliest entry for that URL that ever
  entered the queue; and the entry of the start URL, once visited, is \<^verbatim>\<open>START\<close>.
\<close>

theorem provenance_of_visited:
  "dom (urlSources (crawl_at pol web startUrl n)) = set (visited (crawl_at pol web startUrl n)) \<and>
   (\<forall>u \<in> set (visited (crawl_at pol web startUrl n)).
      \<exists>pre f post.
        enqueued startUrl (crawl_at pol web startUrl n) = pre @ (u, f) # post \<and>
        u \<notin> fst ` set pre \<and>
        urlSources (crawl_at pol web startUrl n) u = Some f) \<and>
   (startUrl \<in> set (visited (crawl_at pol web startUrl n)) \<longrightarrow>
      urlSources (crawl_at pol web startUrl n) startUrl = Some ''START'')"
proof -
  let ?s = "crawl_at pol web startUrl n"
  have inv: "crawl_inv pol startUrl ?s" by (rule crawl_inv_crawl_at)
  then have dom: "dom (urlSources ?s) = set (visited ?s)"
    and prov: "\<forall>u \<in> set (visited ?s). urlSources ?s u = map_of (enqueued startUrl ?s) u"
    by (simp_all add: crawl_inv_def)
  have first: "\<exists>pre f post. enqueued startUrl ?s = pre @ (u, f) # post \<and> u \<notin> fst ` set pre \<and>
                 urlSources ?s u = Some f" if u: "u \<in> set (visited ?s)" for u
  proof -
    from u dom obtain f where f: "urlSources ?s u = Some f" by auto
    with prov u have "map_of (enqueued startUrl ?s) u = Some f" by simp
    from map_of_first[OF this] f show ?thesis by blast
  qed
  have start: "urlSources ?s startUrl = Some ''START''" if "startUrl \<in> set (visited ?s)"
    using prov that by (simp add: enqueued_def)
  from dom first start show ?thesis by blast
qed

theorem provenance_of_visited_witness:
  "example_page_a \<in> set (visited (crawl_at example_policy example_web example_seed 4)) \<and>
   enqueued example_seed (crawl_at example_policy example_web example_seed 4) =
     [(example_seed, ''START''),
      (example_page_a, example_seed),
      (example_page_a, example_seed),
      (example_page_b, example_seed)] \<and>
   urlSources (crawl_at example_policy example_web example_seed 4) example_page_a =
     Some example_seed \<and>
   urlSources (crawl_at example_policy example_web example_seed 4) example_seed =
     Some ''START''"
proof -
  let ?s = "crawl_at example_policy example_web example_seed 4"
  have a: "example_page_a \<in> set (visited ?s)"
    and b: "example_seed \<in> set (visited ?s)"
    by (simp_all add: example_state_4)
  have e: "enqueued example_seed ?s =
     [(example_seed, ''START''),
      (example_page_a, example_seed),
      (example_page_a, example_seed),
      (example_page_b, example_seed)]"
    by (simp add: enqueued_def example_state_4)
  note p = provenance_of_visited[of example_policy example_web example_seed 4]
  from p b have s: "urlSources ?s example_seed = Some ''START''" by blast
  from p a obtain pre f post where
    split: "enqueued example_seed ?s = pre @ (example_page_a, f) # post"
    and fresh: "example_page_a \<notin> fst ` set pre"
    and src: "urlSources ?s example_page_a = Some f"
    by blast
  from split have "(example_page_a, f) \<in> set (enqueued example_seed ?s)"
    by simp
  then have "f = example_seed" unfolding e by simp
  with src a e s show ?thesis by blast
qed


text \<open>
  What the loop keeps of the scope: after any number of iterations, every URL that was
  pushed passes \<open>shouldCrawl\<close>, every entry of the queue is the seed or passes it, and
  every visited URL passes it.
\<close>

lemma scope_closure:
  "(\<forall>e \<in> set (pushes (trace (crawl_at pol web startUrl n))). shouldCrawl pol (fst e)) \<and>
   (\<forall>e \<in> set (toVisit (crawl_at pol web startUrl n)).
      e = (startUrl, ''START'') \<or> shouldCrawl pol (fst e)) \<and>
   (\<forall>u \<in> set (visited (crawl_at pol web startUrl n)). shouldCrawl pol u)"
proof -
  let ?s = "crawl_at pol web startUrl n"
  have inv: "crawl_inv pol startUrl ?s" by (rule crawl_inv_crawl_at)
  then have pu: "\<forall>e \<in> set (pushes (trace ?s)). shouldCrawl pol (fst e)"
    and vi: "\<forall>u \<in> set (visited ?s). shouldCrawl pol u"
    and fifo: "enqueued startUrl ?s = shifts (trace ?s) @ toVisit ?s"
    by (simp_all add: crawl_inv_def)
  have "e = (startUrl, ''START'') \<or> shouldCrawl pol (fst e)" if "e \<in> set (toVisit ?s)" for e
  proof -
    from that fifo have "e \<in> set (enqueued startUrl ?s)" by simp
    then have "e = (startUrl, ''START'') \<or> e \<in> set (pushes (trace ?s))"
      by (simp add: enqueued_def)
    with pu show ?thesis by blast
  qed
  with pu vi show ?thesis by blast
qed

text \<open>
  C7: no URL outside the scope policy, that is, of another origin than the seed, should be
  pushed or visited. Since \<open>shouldCrawl\<close> tests a prefix of the text, the link
  \<^verbatim>\<open>https://x.test.evil.com/context:proj\<close> on the seed page is pushed by the first
  iteration and visited by the second.
\<close>

theorem foreign_origin_visited:
  "derive_policy http_origin example_seed = Inr example_policy \<and>
   http_origin example_evil_page = Some ''https://x.test.evil.com'' \<and>
   pushes (trace (crawl_at example_policy example_foreign_web example_seed 2)) =
     [(example_evil_page, example_seed)] \<and>
   visited (crawl_at example_policy example_foreign_web example_seed 2) =
     [example_seed, example_evil_page]"
proof -
  have d: "derive_policy http_origin example_seed = Inr example_policy"
    by (simp add: derive_policy_def http_origin_example_seed token_char_def
          allowedPatterns_of_def example_policy_def)
  have s1: "crawl_at example_policy example_foreign_web example_seed (Suc 0) =
     \<lparr>visited = [example_seed], errorsFound = [],
      toVisit = [(example_evil_page, example_seed)],
      urlSources = [example_seed \<mapsto> ''START''],
      brokenLinks = [], resourceErrors = [],
      currentPageUrl = example_seed,
      trace = [Shift (example_seed, ''START''), Goto example_seed, Settle 1000, Evaluate,
               Push (example_evil_page, example_seed)]\<rparr>"
    by (simp add: crawl_at_def initial_def example_foreign_web_def example_policy_def step_def
          visit_def check_status_def catch_error_def shouldCrawl_def href_wanted_def Let_def)
  have "crawl_at example_policy example_foreign_web example_seed 2 =
        step example_policy example_foreign_web
          (crawl_at example_policy example_foreign_web example_seed (Suc 0))"
    by (simp add: crawl_at_def numeral_2_eq_2)
  then have s2: "pushes (trace (crawl_at example_policy example_foreign_web example_seed 2)) =
        [(example_evil_page, example_seed)] \<and>
      visited (crawl_at example_policy example_foreign_web example_seed 2) =
        [example_seed, example_evil_page]"
    by (simp only: s1)
       (simp add: example_foreign_web_def example_policy_def step_def visit_def check_status_def
          catch_error_def shouldCrawl_def href_wanted_def Let_def)
  from d http_origin_foreign s2 show ?thesis by simp
qed

lemma first_occurrences_snoc:
  "first_occurrences (xs @ [x]) =
     (if x \<in> set xs then first_occurrences xs else first_occurrences xs @ [x])"
  by (simp add: first_occurrences_def)

lemma set_first_occurrences [simp]: "set (first_occurrences xs) = set xs"
  by (simp add: first_occurrences_def)

lemma first_occurrences_Nil [simp]: "first_occurrences [] = []"
  by (simp add: first_occurrences_def)

lemma visited_first_pops_step:
  assumes "visited s = first_occurrences (filter (shouldCrawl pol) (map fst (shifts (trace s))))"
  shows "visited (step pol web s) =
           first_occurrences (filter (shouldCrawl pol) (map fst (shifts (trace (step pol web s)))))"
proof (cases "toVisit s")
  case Nil
  with assms show ?thesis by (simp add: step_done)
next
  case (Cons e rest)
  obtain u f where e: "e = (u, f)" by (cases e)
  with Cons have q: "toVisit s = (u, f) # rest" by simp
  have mem: "u \<in> set (visited s) \<longleftrightarrow> u \<in> set (filter (shouldCrawl pol) (map fst (shifts (trace s))))"
    by (simp only: assms set_first_occurrences)
  show ?thesis
  proof (cases "u \<in> set (visited s) \<or> \<not> shouldCrawl pol u")
    case True
    show ?thesis
    proof (cases "shouldCrawl pol u")
      case False
      with assms show ?thesis by (simp add: step_skip[OF q True])
    next
      case sc: True
      with True have "u \<in> set (visited s)" by blast
      with mem have "u \<in> set (filter (shouldCrawl pol) (map fst (shifts (trace s))))" by blast
      with assms sc show ?thesis
        by (simp add: step_skip[OF q True] first_occurrences_snoc)
    qed
  next
    case False
    then have fresh: "u \<notin> set (visited s)" and sc: "shouldCrawl pol u" by blast+
    from fresh mem have "u \<notin> set (filter (shouldCrawl pol) (map fst (shifts (trace s))))" by blast
    with assms sc show ?thesis
      by (simp add: step_visit[OF q fresh sc] first_occurrences_snoc)
  qed
qed

lemma visited_first_pops:
  "visited (crawl_at pol web startUrl n) =
     first_occurrences (filter (shouldCrawl pol) (map fst (shifts (trace (crawl_at pol web startUrl n)))))"
proof (induction n)
  case 0
  show ?case by (simp add: crawl_at_def initial_def)
next
  case (Suc n)
  then show ?case by (simp only: crawl_at_Suc visited_first_pops_step)
qed

text \<open>
  C8: after any number of iterations, the entries shifted so far followed by the queue are
  the entries that entered the queue, in the order they entered it; the visited URLs are
  the shifted URLs that pass the scope test, each at its first occurrence, in that order;
  and for every entry pushed for a URL found on a page, that page is visited, and is
  visited before the URL if the URL is visited at all.
\<close>

theorem frontier_fifo:
  "enqueued startUrl (crawl_at pol web startUrl n) =
     shifts (trace (crawl_at pol web startUrl n)) @ toVisit (crawl_at pol web startUrl n) \<and>
   visited (crawl_at pol web startUrl n) =
     first_occurrences
       (filter (shouldCrawl pol) (map fst (shifts (trace (crawl_at pol web startUrl n))))) \<and>
   (\<forall>e \<in> set (pushes (trace (crawl_at pol web startUrl n))).
      snd e \<in> set (visited (crawl_at pol web startUrl n)) \<and>
      (fst e \<in> set (visited (crawl_at pol web startUrl n)) \<longrightarrow>
         comes_before (snd e) (fst e) (visited (crawl_at pol web startUrl n))))"
  using crawl_inv_crawl_at[of pol startUrl web n] visited_first_pops[of pol web startUrl n]
  by (simp add: crawl_inv_def)

theorem frontier_fifo_witness:
  "(example_page_b, example_seed) \<in>
     set (pushes (trace (crawl_at example_policy example_web example_seed 4))) \<and>
   visited (crawl_at example_policy example_web example_seed 4) =
     [example_seed, example_page_a, example_page_b] \<and>
   comes_before example_seed example_page_b
     (visited (crawl_at example_policy example_web example_seed 4)) \<and>
   shifts (trace (crawl_at example_policy example_web example_seed 2)) @
     toVisit (crawl_at example_policy example_web example_seed 2) =
     [(example_seed, ''START''),
      (example_page_a, example_seed),
      (example_page_a, example_seed),
      (example_page_b, example_seed)]"
proof -
  let ?s = "crawl_at example_policy example_web example_seed 4"
  let ?s2 = "crawl_at example_policy example_web example_seed 2"
  have p: "(example_page_b, example_seed) \<in> set (pushes (trace ?s))"
    by (simp add: example_state_4)
  have v: "visited ?s = [example_seed, example_page_a, example_page_b]"
    by (simp add: example_state_4)
  have b: "example_page_b \<in> set (visited ?s)" by (simp add: v)
  have e: "enqueued example_seed ?s2 =
     [(example_seed, ''START''),
      (example_page_a, example_seed),
      (example_page_a, example_seed),
      (example_page_b, example_seed)]"
    by (simp add: enqueued_def example_state_2)
  from frontier_fifo[of example_seed example_policy example_web 4] p b
  have "comes_before example_seed example_page_b (visited ?s)"
    by fastforce
  moreover from frontier_fifo[of example_seed example_policy example_web 2] e
  have "shifts (trace ?s2) @ toVisit ?s2 =
     [(example_seed, ''START''),
      (example_page_a, example_seed),
      (example_page_a, example_seed),
      (example_page_b, example_seed)]"
    by simp
  ultimately show ?thesis using p v by blast
qed

end
